theory Spec2Isabelle
  imports Main "HOL-Library.AList" "HOL-Library.Char_ord" "HOL-Library.List_Lexorder"
begin

section \<open>Data model of \<^verbatim>\<open>dedup.py\<close>\<close>

text \<open>
  An image path is a Python \<^verbatim>\<open>str\<close>; Python compares strings lexicographically by
  code point, which is the lexicographic order on the characters of \<^typ>\<open>string\<close>.
  A perceptual hash is the hexadecimal string returned by the hashing library.

  A Python \<^verbatim>\<open>dict\<close> keeps its keys in insertion order and holds every key once. It
  is modelled as an association list in insertion order; a well-formed dictionary has
  \<open>distinct (map fst d)\<close>. Two dictionaries are equal in Python when they hold the
  same entries, whatever the insertion order: \<open>map_of d1 = map_of d2\<close>.
\<close>

type_synonym path = string
type_synonym hash = string
type_synonym 'v dict = "(path \<times> 'v) list"

definition dict_keys :: "'v dict \<Rightarrow> path list" where
  \<comment> \<open>\<^verbatim>\<open>d.keys()\<close>\<close>
  "dict_keys d = map fst d"

definition dict_get :: "'v dict \<Rightarrow> path \<Rightarrow> 'v \<Rightarrow> 'v" where
  \<comment> \<open>\<^verbatim>\<open>d.get(k, default)\<close>\<close>
  "dict_get d k dflt = (case map_of d k of None \<Rightarrow> dflt | Some v \<Rightarrow> v)"

definition dict_set :: "'v dict \<Rightarrow> path \<Rightarrow> 'v \<Rightarrow> 'v dict" where
  \<comment> \<open>\<^verbatim>\<open>d[k] = v\<close>: an existing key keeps its position, a new key is appended\<close>
  "dict_set d k v = AList.update k v d"

section \<open>The selection loop of \<^verbatim>\<open>find_and_process_duplicates\<close>\<close>

text \<open>The two Python sets the loop of lines 98 to 114 updates.\<close>

record selection =
  files_to_remove :: "path set"
  kept_files :: "path set"

definition empty_selection :: selection where
  \<comment> \<open>lines 91 and 92\<close>
  "empty_selection = \<lparr>files_to_remove = {}, kept_files = {}\<rparr>"

text \<open>Lines 113 and 114: the body of the inner loop, for one \<^verbatim>\<open>dup\<close>.\<close>

definition mark_dup :: "path \<Rightarrow> selection \<Rightarrow> path \<Rightarrow> selection" where
  "mark_dup filename s dup =
     (if dup \<noteq> filename \<and> dup \<notin> files_to_remove s \<and> dup \<notin> kept_files s
      then s\<lparr>files_to_remove := insert dup (files_to_remove s)\<rparr>
      else s)"

text \<open>Line 112: \<^verbatim>\<open>for dup in dups\<close>.\<close>

fun mark_dups :: "path \<Rightarrow> path list \<Rightarrow> selection \<Rightarrow> selection" where
  "mark_dups filename [] s = s"
| "mark_dups filename (dup # dups) s = mark_dups filename dups (mark_dup filename s dup)"

text \<open>Lines 99 to 114: the body of the outer loop, for one \<^verbatim>\<open>filename\<close>.\<close>

definition process_filename :: "path list dict \<Rightarrow> selection \<Rightarrow> path \<Rightarrow> selection" where
  "process_filename duplicates s filename =
     (if filename \<in> files_to_remove s then s
      else let dups = dict_get duplicates filename [] in
        if dups = [] then s
        else mark_dups filename dups (s\<lparr>kept_files := insert filename (kept_files s)\<rparr>))"

text \<open>Line 98: \<^verbatim>\<open>for filename in sorted_filenames\<close>.\<close>

fun selection_loop :: "path list dict \<Rightarrow> path list \<Rightarrow> selection \<Rightarrow> selection" where
  "selection_loop duplicates [] s = s"
| "selection_loop duplicates (filename # rest) s =
     selection_loop duplicates rest (process_filename duplicates s filename)"

definition sorted_filenames :: "path list dict \<Rightarrow> path list" where
  \<comment> \<open>line 96\<close>
  "sorted_filenames duplicates = sort (dict_keys duplicates)"

definition select_files :: "path list dict \<Rightarrow> selection" where
  "select_files duplicates =
     selection_loop duplicates (sorted_filenames duplicates) empty_selection"

text \<open>
  A set of paths whose members all list one another in their duplicate lists.
\<close>

definition mutual_cluster :: "path list dict \<Rightarrow> path set \<Rightarrow> bool" where
  "mutual_cluster dm C \<longleftrightarrow> (\<forall>p\<in>C. \<forall>q\<in>C. p \<noteq> q \<longrightarrow> q \<in> set (dict_get dm p []))"

section \<open>The counts of the result summary\<close>

text \<open>
  Lines 118 to 120. \<^verbatim>\<open>len\<close> returns a Python integer, which is unbounded, so the
  difference of line 119 is taken in \<^typ>\<open>int\<close> and may be negative.
\<close>

definition total_images_processed :: "hash dict \<Rightarrow> int" where
  "total_images_processed encodings = int (length encodings)"

definition unique_images_to_keep :: "hash dict \<Rightarrow> selection \<Rightarrow> int" where
  "unique_images_to_keep encodings s =
     int (length encodings) - int (card (files_to_remove s))"

definition duplicates_found :: "selection \<Rightarrow> int" where
  "duplicates_found s = int (card (files_to_remove s))"

text \<open>The decimal text an f-string gives an integer.\<close>

fun str_nat :: "nat \<Rightarrow> string" where
  "str_nat n =
     (if n < 10 then [char_of (48 + n)]
      else str_nat (n div 10) @ [char_of (48 + n mod 10)])"

declare str_nat.simps [simp del]

definition str_int :: "int \<Rightarrow> string" where
  "str_int i = (if i < 0 then CHR ''-'' # str_nat (nat (- i)) else str_nat (nat i))"

section \<open>The world the script runs in\<close>

text \<open>
  The script reads and changes the file system, prints to standard output and calls
  the hashing library and the operating system. The state threaded through the model
  holds the file system (of any type \<open>'fs\<close>: the script only hands it to library
  calls), the lines printed so far (one per \<^verbatim>\<open>print\<close>), and a log of the external
  calls made so far, in order. The progress bar of \<^verbatim>\<open>tqdm\<close> goes to standard error
  and is left out.
\<close>

datatype call =
    OsWalk path
  | EncodeImage path
  | FindDuplicates "hash dict" int
  | OsRemove path

record 'fs world =
  fs :: 'fs
  stdout :: "string list"
  calls :: "call list"

definition print :: "string \<Rightarrow> 'fs world \<Rightarrow> 'fs world" where
  "print line w = w\<lparr>stdout := stdout w @ [line]\<rparr>"

definition log_call :: "call \<Rightarrow> 'fs world \<Rightarrow> 'fs world" where
  "log_call c w = w\<lparr>calls := calls w @ [c]\<rparr>"

text \<open>
  A function of the script either returns, or an exception nobody catches leaves it;
  both carry the world reached.
\<close>

datatype 'w outcome = Returned 'w | Raised string 'w

fun world_of :: "'w outcome \<Rightarrow> 'w" where
  "world_of (Returned w) = w"
| "world_of (Raised e w) = w"

text \<open>
  The hashing library (\<^verbatim>\<open>imagededup\<close>) is not part of the repository. A hasher
  object is its two methods: \<^verbatim>\<open>encode_image\<close> reads a file and returns its hash or
  raises an \<^verbatim>\<open>Exception\<close> (\<open>Inl\<close>, with the message), \<^verbatim>\<open>find_duplicates\<close> (called
  with \<^verbatim>\<open>scores=False\<close>) returns the duplicate map or raises.
\<close>

record 'fs hasher =
  encode_image :: "'fs \<Rightarrow> path \<Rightarrow> string + hash"
  find_duplicates :: "hash dict \<Rightarrow> int \<Rightarrow> string + path list dict"

text \<open>
  The primitives of the Python library the script calls: \<^verbatim>\<open>os.walk\<close>,
  \<^verbatim>\<open>os.path.join\<close>, \<^verbatim>\<open>Path(file).suffix\<close>, \<^verbatim>\<open>str.lower\<close>, \<^verbatim>\<open>os.remove\<close> (which
  returns the new file system or raises \<^verbatim>\<open>OSError\<close>, \<open>Inl\<close> with its message), and
  the order in which a \<^verbatim>\<open>for\<close> loop visits a Python set, which the language leaves
  open.
\<close>

record 'fs os =
  os_walk :: "'fs \<Rightarrow> path \<Rightarrow> (path \<times> string list \<times> string list) list"
  os_path_join :: "path \<Rightarrow> string \<Rightarrow> path"
  path_suffix :: "string \<Rightarrow> string"
  str_lower :: "string \<Rightarrow> string"
  os_remove :: "path \<Rightarrow> 'fs \<Rightarrow> string + 'fs"
  set_iter :: "path set \<Rightarrow> path list"

section \<open>Command line\<close>

datatype hash_method = phash | dhash | whash | ahash

text \<open>
  What \<^verbatim>\<open>parse_args\<close> returns: the fields \<^verbatim>\<open>input_dir\<close>, \<^verbatim>\<open>method\<close>, \<^verbatim>\<open>threshold\<close>
  and \<^verbatim>\<open>delete\<close> of the namespace, each with the prefix \<open>arg_\<close>.
\<close>

record args =
  arg_input_dir :: path
  arg_method :: hash_method
  arg_threshold :: int
  arg_delete :: bool

section \<open>\<^verbatim>\<open>get_image_files\<close>\<close>

definition extensions :: "string set" where
  "extensions = {''.jpg'', ''.jpeg'', ''.png'', ''.bmp'', ''.tiff'', ''.webp''}"

definition matching_files :: "'fs os \<Rightarrow> path \<times> string list \<times> string list \<Rightarrow> path list" where
  \<comment> \<open>lines 58 to 60, for one triple of the walk\<close>
  "matching_files env triple =
     (case triple of (root, dirs, files) \<Rightarrow>
        map (os_path_join env root)
          (filter (\<lambda>file. str_lower env (path_suffix env file) \<in> extensions) files))"

definition get_image_files :: "'fs os \<Rightarrow> path \<Rightarrow> 'fs world \<Rightarrow> path list \<times> 'fs world" where
  "get_image_files env root_dir w =
     (let w1 = print (''Scanning '' @ root_dir @ '' for images...'') w;
          w2 = log_call (OsWalk root_dir) w1;
          image_paths = concat (map (matching_files env) (os_walk env (fs w2) root_dir));
          w3 = print (''Found '' @ str_int (int (length image_paths)) @ '' images.'') w2
      in (image_paths, w3))"

section \<open>\<^verbatim>\<open>generate_encodings\<close>\<close>

text \<open>Lines 73 to 80: one call of \<^verbatim>\<open>encode_image\<close> for each path, in order.\<close>

fun encode_loop ::
  "'fs hasher \<Rightarrow> path list \<Rightarrow> hash dict \<times> 'fs world \<Rightarrow> hash dict \<times> 'fs world" where
  "encode_loop hasher [] st = st"
| "encode_loop hasher (img_path # rest) (encodings, w) =
     (let w1 = log_call (EncodeImage img_path) w in
      case encode_image hasher (fs w1) img_path of
        Inr hash_str \<Rightarrow> encode_loop hasher rest (dict_set encodings img_path hash_str, w1)
      | Inl e \<Rightarrow> encode_loop hasher rest (encodings, w1))"

definition generate_encodings ::
  "'fs hasher \<Rightarrow> path list \<Rightarrow> 'fs world \<Rightarrow> hash dict \<times> 'fs world" where
  "generate_encodings hasher image_paths w =
     encode_loop hasher image_paths ([], print ''Generating image hashes...'' w)"

section \<open>The action phase of \<^verbatim>\<open>find_and_process_duplicates\<close>\<close>

text \<open>Lines 127 to 132.\<close>

fun delete_loop :: "'fs os \<Rightarrow> path list \<Rightarrow> 'fs world \<Rightarrow> 'fs world" where
  "delete_loop env [] w = w"
| "delete_loop env (file_path # rest) w =
     (let w1 = log_call (OsRemove file_path) w in
      case os_remove env file_path (fs w1) of
        Inr fs' \<Rightarrow> delete_loop env rest (print (''Deleted: '' @ file_path) (w1\<lparr>fs := fs'\<rparr>))
      | Inl e \<Rightarrow> delete_loop env rest (print (''Error deleting '' @ file_path @ '': '' @ e) w1))"

text \<open>Lines 135 and 136.\<close>

fun dry_run_loop :: "path list \<Rightarrow> 'fs world \<Rightarrow> 'fs world" where
  "dry_run_loop [] w = w"
| "dry_run_loop (file_path # rest) w =
     dry_run_loop rest (print (''Would delete: '' @ file_path) w)"

definition print_summary :: "hash dict \<Rightarrow> selection \<Rightarrow> 'fs world \<Rightarrow> 'fs world" where
  \<comment> \<open>lines 117 to 120\<close>
  "print_summary encodings s w =
     print (''Duplicates found:       '' @ str_int (duplicates_found s))
       (print (''Unique images to keep:  '' @ str_int (unique_images_to_keep encodings s))
         (print (''Total images processed: '' @ str_int (total_images_processed encodings))
           (print (CHR 0x0A # ''--- Result Summary ---'') w)))"

definition action_phase :: "'fs os \<Rightarrow> selection \<Rightarrow> bool \<Rightarrow> 'fs world \<Rightarrow> 'fs world" where
  \<comment> \<open>lines 122 to 137\<close>
  "action_phase env s delete_mode w =
     (if card (files_to_remove s) = 0 then w
      else if delete_mode then
        delete_loop env (set_iter env (files_to_remove s))
          (print (CHR 0x0A # ''!!! DELETING DUPLICATES !!!'') w)
      else
        print (CHR 0x0A # ''Run with --delete to actually remove these files.'')
          (dry_run_loop (set_iter env (files_to_remove s))
            (print (CHR 0x0A # ''--- Dry Run (Files that would be deleted) ---'') w)))"

definition find_and_process_duplicates ::
  "'fs os \<Rightarrow> hash dict \<Rightarrow> 'fs hasher \<Rightarrow> int \<Rightarrow> bool \<Rightarrow> 'fs world \<Rightarrow> 'fs world outcome" where
  "find_and_process_duplicates env encodings hasher threshold delete_mode w =
     (let w1 = print ''Finding duplicates...'' w;
          w2 = log_call (FindDuplicates encodings threshold) w1
      in case find_duplicates hasher encodings threshold of
           Inl e \<Rightarrow> Raised e w2
         | Inr duplicates \<Rightarrow>
             (let s = select_files duplicates
              in Returned (action_phase env s delete_mode (print_summary encodings s w2))))"

section \<open>\<^verbatim>\<open>main\<close>\<close>

text \<open>
  \<open>hash_methods\<close> is the table \<^verbatim>\<open>HASH_METHODS\<close> with each class already
  instantiated; \<open>args\<close> is what \<^verbatim>\<open>parse_args\<close> returned.
\<close>

definition main ::
  "'fs os \<Rightarrow> (hash_method \<Rightarrow> 'fs hasher) \<Rightarrow> args \<Rightarrow> 'fs world \<Rightarrow> 'fs world outcome" where
  "main env hash_methods args w =
     (let hasher = hash_methods (arg_method args);
          (image_paths, w1) = get_image_files env (arg_input_dir args) w
      in if image_paths = [] then Returned (print ''No images found. Exiting.'' w1)
         else
           (let (encodings, w2) = generate_encodings hasher image_paths w1
            in find_and_process_duplicates env encodings hasher
                 (arg_threshold args) (arg_delete args) w2))"

text \<open>The paths handed to \<^verbatim>\<open>os.remove\<close> so far.\<close>

fun removals :: "call list \<Rightarrow> path list" where
  "removals [] = []"
| "removals (OsRemove p # cs) = p # removals cs"
| "removals (c # cs) = removals cs"

text \<open>
  Every removed path has a reason: a different, kept path whose duplicate list holds it.
\<close>

definition justified :: "path list dict \<Rightarrow> selection \<Rightarrow> bool" where
  "justified dm s \<longleftrightarrow>
     (\<forall>p\<in>files_to_remove s. \<exists>q\<in>kept_files s. q \<noteq> p \<and> p \<in> set (dict_get dm q []))"

section \<open>A sample run\<close>

text \<open>
  A small world to run the model on. The file system is the list of the file names of
  one flat directory \<^verbatim>\<open>d\<close>; the hasher cannot read \<^verbatim>\<open>d/b.jpg\<close>, gives every other
  file the hash \<^verbatim>\<open>ff\<close>, and reports every encoded path as a duplicate of every other.
\<close>

definition sample_os :: "string list os" where
  "sample_os =
     \<lparr>os_walk = (\<lambda>files root. [(root, [], files)]),
      os_path_join = (\<lambda>root file. root @ ''/'' @ file),
      path_suffix = (\<lambda>file. dropWhile (\<lambda>c. c \<noteq> CHR ''.'') file),
      str_lower = (\<lambda>s. s),
      os_remove = (\<lambda>p files.
        if p \<in> set (map (\<lambda>f. ''d/'' @ f) files)
        then Inr (filter (\<lambda>f. ''d/'' @ f \<noteq> p) files)
        else Inl ''No such file or directory''),
      set_iter = sorted_list_of_set\<rparr>"

definition sample_hasher :: "string list hasher" where
  "sample_hasher =
     \<lparr>encode_image = (\<lambda>files p. if p = ''d/b.jpg'' then Inl ''cannot read'' else Inr ''ff''),
      find_duplicates = (\<lambda>encodings t.
        Inr (map (\<lambda>(p, h). (p, filter (\<lambda>q. q \<noteq> p) (map fst encodings))) encodings))\<rparr>"

definition sample_world :: "string list \<Rightarrow> string list world" where
  "sample_world files = \<lparr>fs = files, stdout = [], calls = []\<rparr>"

definition sample_args :: "bool \<Rightarrow> args" where
  "sample_args del =
     \<lparr>arg_input_dir = ''d'', arg_method = phash, arg_threshold = 10, arg_delete = del\<rparr>"

section \<open>Invariants of the selection loop\<close>

lemma kept_mark_dup: "kept_files (mark_dup f s d) = kept_files s"
  by (simp add: mark_dup_def)

lemma removed_mark_dup:
  "files_to_remove (mark_dup f s d) =
     files_to_remove s \<union> (if d \<noteq> f \<and> d \<notin> kept_files s then {d} else {})"
  by (auto simp: mark_dup_def)

lemma kept_mark_dups: "kept_files (mark_dups f ds s) = kept_files s"
  by (induction ds arbitrary: s) (simp_all add: kept_mark_dup)

lemma removed_mark_dups:
  "files_to_remove (mark_dups f ds s) =
     files_to_remove s \<union> {d \<in> set ds. d \<noteq> f \<and> d \<notin> kept_files s}"
  by (induction ds arbitrary: s) (auto simp: kept_mark_dup removed_mark_dup)

lemma kept_process_filename:
  "kept_files (process_filename dm s f) =
     (if f \<in> files_to_remove s \<or> dict_get dm f [] = [] then kept_files s
      else insert f (kept_files s))"
  by (simp add: process_filename_def Let_def kept_mark_dups)

lemma removed_process_filename:
  "files_to_remove (process_filename dm s f) =
     (if f \<in> files_to_remove s \<or> dict_get dm f [] = [] then files_to_remove s
      else files_to_remove s \<union> {d \<in> set (dict_get dm f []). d \<noteq> f \<and> d \<notin> kept_files s})"
  by (auto simp: process_filename_def Let_def removed_mark_dups)

lemma selection_loop_append:
  "selection_loop dm (xs @ ys) s = selection_loop dm ys (selection_loop dm xs s)"
  by (induction xs arbitrary: s) simp_all

lemma kept_loop_mono: "kept_files s \<subseteq> kept_files (selection_loop dm ks s)"
proof (induction ks arbitrary: s)
  case Nil
  show ?case by simp
next
  case (Cons k ks)
  have "kept_files s \<subseteq> kept_files (process_filename dm s k)"
    by (auto simp: kept_process_filename)
  also have "\<dots> \<subseteq> kept_files (selection_loop dm ks (process_filename dm s k))"
    by (rule Cons.IH)
  finally show ?case by simp
qed

lemma disjoint_process_filename:
  "kept_files s \<inter> files_to_remove s = {} \<Longrightarrow>
   kept_files (process_filename dm s f) \<inter> files_to_remove (process_filename dm s f) = {}"
  by (auto simp: kept_process_filename removed_process_filename split: if_splits)

lemma disjoint_loop:
  "kept_files s \<inter> files_to_remove s = {} \<Longrightarrow>
   kept_files (selection_loop dm ks s) \<inter> files_to_remove (selection_loop dm ks s) = {}"
  by (induction ks arbitrary: s) (simp_all add: disjoint_process_filename)

lemma removed_loop_bound:
  "files_to_remove (selection_loop dm ks s) \<subseteq>
     files_to_remove s \<union> (\<Union>k\<in>set ks. set (dict_get dm k []) - {k})"
proof (induction ks arbitrary: s)
  case Nil
  show ?case by simp
next
  case (Cons k ks)
  have "files_to_remove (process_filename dm s k) \<subseteq>
          files_to_remove s \<union> (set (dict_get dm k []) - {k})"
    by (auto simp: removed_process_filename split: if_splits)
  with Cons.IH [of "process_filename dm s k"] show ?case by auto
qed

lemma justified_process_filename:
  "justified dm s \<Longrightarrow> justified dm (process_filename dm s f)"
  unfolding justified_def
  by (auto simp: kept_process_filename removed_process_filename split: if_splits)

lemma justified_loop: "justified dm s \<Longrightarrow> justified dm (selection_loop dm ks s)"
  by (induction ks arbitrary: s) (simp_all add: justified_process_filename)

lemma sorted_before_less:
  fixes m :: "'a::linorder"
  assumes "sorted (xs @ m # ys)" "m \<notin> set xs" "x \<in> set xs"
  shows "x < m"
proof -
  have "x \<le> m" using assms(1,3) by (auto simp: sorted_append)
  moreover have "x \<noteq> m" using assms(2,3) by auto
  ultimately show ?thesis by simp
qed

lemma first_listed_kept:
  assumes key: "m \<in> set (dict_keys dm)"
    and nonempty: "dict_get dm m [] \<noteq> []"
    and unlisted: "\<forall>k\<in>set (dict_keys dm). k < m \<longrightarrow> m \<notin> set (dict_get dm k [])"
  shows "m \<in> kept_files (select_files dm) \<and> m \<notin> files_to_remove (select_files dm)"
proof -
  have "m \<in> set (sorted_filenames dm)"
    using key by (simp add: sorted_filenames_def)
  then obtain xs ys where split: "sorted_filenames dm = xs @ m # ys" and first: "m \<notin> set xs"
    by (meson split_list_first)
  have srt: "sorted (xs @ m # ys)"
    using split [symmetric] by (simp add: sorted_filenames_def)
  have keys: "set xs \<subseteq> set (dict_keys dm)"
  proof -
    have "set (sorted_filenames dm) = set (dict_keys dm)" by (simp add: sorted_filenames_def)
    then show ?thesis using split by auto
  qed
  define s1 where "s1 = selection_loop dm xs empty_selection"
  define s2 where "s2 = process_filename dm s1 m"
  have fin: "select_files dm = selection_loop dm ys s2"
    by (simp add: select_files_def split selection_loop_append s1_def s2_def)
  have "files_to_remove s1 \<subseteq> (\<Union>k\<in>set xs. set (dict_get dm k []) - {k})"
    using removed_loop_bound [of dm xs empty_selection] by (simp add: s1_def empty_selection_def)
  moreover have "m \<notin> set (dict_get dm k [])" if "k \<in> set xs" for k
  proof -
    have "k < m" using srt first that by (rule sorted_before_less)
    moreover have "k \<in> set (dict_keys dm)" using that keys by blast
    ultimately show ?thesis using unlisted by blast
  qed
  ultimately have notrem: "m \<notin> files_to_remove s1" by auto
  have "kept_files s1 \<inter> files_to_remove s1 = {}"
    unfolding s1_def by (rule disjoint_loop) (simp add: empty_selection_def)
  then have disj2: "kept_files s2 \<inter> files_to_remove s2 = {}"
    unfolding s2_def by (rule disjoint_process_filename)
  have "m \<in> kept_files s2"
    using notrem nonempty by (simp add: s2_def kept_process_filename)
  then have kept: "m \<in> kept_files (select_files dm)"
    using kept_loop_mono [of s2 dm ys] fin by auto
  have "kept_files (select_files dm) \<inter> files_to_remove (select_files dm) = {}"
    unfolding fin using disj2 by (rule disjoint_loop)
  with kept show ?thesis by auto
qed

lemma dict_get_nonempty_key: "dict_get dm k [] \<noteq> [] \<Longrightarrow> k \<in> set (dict_keys dm)"
proof -
  assume "dict_get dm k [] \<noteq> []"
  then obtain v where "map_of dm k = Some v"
    by (cases "map_of dm k") (simp_all add: dict_get_def)
  then have "(k, v) \<in> set dm" by (rule map_of_SomeD)
  then have "fst (k, v) \<in> fst ` set dm" by (rule imageI)
  then show ?thesis by (simp add: dict_keys_def)
qed

lemma disjoint_mark_dups:
  "kept_files s \<inter> files_to_remove s = {} \<Longrightarrow>
   kept_files (mark_dups f ds s) \<inter> files_to_remove (mark_dups f ds s) = {}"
  by (auto simp: kept_mark_dups removed_mark_dups)

lemma disjoint_empty_selection:
  "kept_files empty_selection \<inter> files_to_remove empty_selection = {}"
  by (simp add: empty_selection_def)

lemma mark_dup_kept_noop: "p \<in> kept_files s \<Longrightarrow> mark_dup f s p = s"
  by (simp add: mark_dup_def)

lemma finite_removed_loop:
  "finite (files_to_remove s) \<Longrightarrow> finite (files_to_remove (selection_loop dm ks s))"
proof -
  assume fin: "finite (files_to_remove s)"
  have "finite (files_to_remove s \<union> (\<Union>k\<in>set ks. set (dict_get dm k []) - {k}))"
    using fin by simp
  then show ?thesis using removed_loop_bound by (rule rev_finite_subset)
qed

lemma finite_removed_select: "finite (files_to_remove (select_files dm))"
  unfolding select_files_def by (rule finite_removed_loop) (simp add: empty_selection_def)

lemma justified_select: "justified dm (select_files dm)"
  unfolding select_files_def
  by (rule justified_loop) (simp add: justified_def empty_selection_def)

lemma dict_get_cong: "map_of d1 = map_of d2 \<Longrightarrow> dict_get d1 k dflt = dict_get d2 k dflt"
  by (simp add: dict_get_def)

lemma process_filename_cong:
  "map_of d1 = map_of d2 \<Longrightarrow> process_filename d1 s f = process_filename d2 s f"
  by (simp add: process_filename_def dict_get_cong [of d1 d2])

lemma selection_loop_cong:
  "map_of d1 = map_of d2 \<Longrightarrow> selection_loop d1 ks s = selection_loop d2 ks s"
  by (induction ks arbitrary: s) (simp_all add: process_filename_cong [of d1 d2])

lemma sorted_filenames_cong:
  assumes "distinct (dict_keys d1)" "distinct (dict_keys d2)" "map_of d1 = map_of d2"
  shows "sorted_filenames d1 = sorted_filenames d2"
proof -
  have "dom (map_of d1) = dom (map_of d2)" using assms(3) by simp
  then have "set (dict_keys d1) = set (dict_keys d2)"
    by (simp add: dom_map_of_conv_image_fst dict_keys_def)
  then have "set (sort (dict_keys d1)) = set (sort (dict_keys d2))" by simp
  moreover have "sorted (sort (dict_keys d1))" "sorted (sort (dict_keys d2))" by simp_all
  moreover have "distinct (sort (dict_keys d1))" "distinct (sort (dict_keys d2))"
    using assms(1,2) by simp_all
  ultimately have "sort (dict_keys d1) = sort (dict_keys d2)"
    by (simp only: sorted_distinct_set_unique)
  then show ?thesis by (simp only: sorted_filenames_def)
qed

lemma removed_within_lists:
  "files_to_remove (select_files dm) \<subseteq> (\<Union>k\<in>set (dict_keys dm). set (dict_get dm k []))"
proof -
  have "files_to_remove (select_files dm) \<subseteq>
          files_to_remove empty_selection \<union>
          (\<Union>k\<in>set (sorted_filenames dm). set (dict_get dm k []) - {k})"
    unfolding select_files_def by (rule removed_loop_bound)
  then show ?thesis by (auto simp: empty_selection_def sorted_filenames_def)
qed

lemma select_chain:
  "select_files [(''A'', [''B'']), (''B'', [''A'', ''C'']), (''C'', [''B''])] =
     \<lparr>files_to_remove = {''B''}, kept_files = {''A'', ''C''}\<rparr>"
  by (simp add: select_files_def sorted_filenames_def dict_keys_def empty_selection_def
      process_filename_def dict_get_def mark_dup_def insert_commute)

section \<open>Effects of the pipeline\<close>

lemma print_simps:
  "fs (print l w) = fs w" "calls (print l w) = calls w" "stdout (print l w) = stdout w @ [l]"
  by (simp_all add: print_def)

lemma log_call_simps:
  "fs (log_call c w) = fs w" "calls (log_call c w) = calls w @ [c]"
  "stdout (log_call c w) = stdout w"
  by (simp_all add: log_call_def)

lemma removals_append: "removals (xs @ ys) = removals xs @ removals ys"
  by (induction xs rule: removals.induct) simp_all

lemma removals_encode: "removals (map EncodeImage ps) = []"
  by (induction ps) simp_all

lemma str_int_0: "str_int 0 = ''0''"
  by code_simp

lemma dry_run_loop_eq:
  "dry_run_loop ps w = w\<lparr>stdout := stdout w @ map (\<lambda>p. ''Would delete: '' @ p) ps\<rparr>"
  by (induction ps arbitrary: w) (simp_all add: print_def)

lemma delete_loop_removals:
  "removals (calls (delete_loop env ps w)) = removals (calls w) @ ps"
proof (induction ps arbitrary: w)
  case Nil
  show ?case by simp
next
  case (Cons p ps)
  show ?case
  proof (cases "os_remove env p (fs w)")
    case (Inl e)
    then show ?thesis
      by (simp add: Cons.IH Let_def log_call_simps print_simps removals_append)
  next
    case (Inr fs')
    then show ?thesis
      by (simp add: Cons.IH Let_def log_call_simps print_simps removals_append)
  qed
qed

lemma print_summary_simps:
  "fs (print_summary e s w) = fs w" "calls (print_summary e s w) = calls w"
  by (simp_all add: print_summary_def print_simps)

lemma action_phase_dry:
  "action_phase env s False w =
     (if files_to_remove s = {} \<or> infinite (files_to_remove s) then w
      else w\<lparr>stdout := stdout w @
             [CHR 0x0A # ''--- Dry Run (Files that would be deleted) ---''] @
             map (\<lambda>p. ''Would delete: '' @ p) (set_iter env (files_to_remove s)) @
             [CHR 0x0A # ''Run with --delete to actually remove these files.'']\<rparr>)"
  by (simp add: action_phase_def dry_run_loop_eq print_def)

lemma action_phase_removals:
  "removals (calls (action_phase env s del w)) =
     removals (calls w) @
     (if del \<and> card (files_to_remove s) \<noteq> 0 then set_iter env (files_to_remove s) else [])"
  by (simp add: action_phase_def delete_loop_removals dry_run_loop_eq print_simps)

lemma encode_loop_world:
  "fs (snd (encode_loop h ps (e, w))) = fs w \<and>
   stdout (snd (encode_loop h ps (e, w))) = stdout w \<and>
   calls (snd (encode_loop h ps (e, w))) = calls w @ map EncodeImage ps"
proof (induction ps arbitrary: e w)
  case Nil
  show ?case by simp
next
  case (Cons p ps)
  show ?case
  proof (cases "encode_image h (fs w) p")
    case (Inl x)
    then show ?thesis
      using Cons.IH [of e "log_call (EncodeImage p) w"] by (simp add: Let_def log_call_simps)
  next
    case (Inr x)
    then show ?thesis
      using Cons.IH [of "dict_set e p x" "log_call (EncodeImage p) w"]
      by (simp add: Let_def log_call_simps)
  qed
qed

lemma encode_loop_map_of:
  "map_of (fst (encode_loop h ps (e, w))) p =
     (if p \<in> set ps
      then (case encode_image h (fs w) p of Inr x \<Rightarrow> Some x | Inl err \<Rightarrow> map_of e p)
      else map_of e p)"
proof (induction ps arbitrary: e w)
  case Nil
  show ?case by simp
next
  case (Cons q ps)
  show ?case
  proof (cases "encode_image h (fs w) q")
    case (Inl x)
    then show ?thesis
      using Cons.IH [of e "log_call (EncodeImage q) w"]
      by (simp add: Let_def log_call_simps)
  next
    case (Inr x)
    then show ?thesis
      using Cons.IH [of "dict_set e q x" "log_call (EncodeImage q) w"]
      by (simp add: Let_def log_call_simps dict_set_def update_conv' split: sum.splits)
  qed
qed

lemma encode_loop_distinct:
  "distinct (dict_keys e) \<Longrightarrow> distinct (dict_keys (fst (encode_loop h ps (e, w))))"
proof (induction ps arbitrary: e w)
  case Nil
  then show ?case by simp
next
  case (Cons q ps)
  show ?case
  proof (cases "encode_image h (fs w) q")
    case (Inl x)
    then show ?thesis
      using Cons.IH [of e "log_call (EncodeImage q) w"] Cons.prems
      by (simp add: Let_def log_call_simps)
  next
    case (Inr x)
    have "distinct (dict_keys (dict_set e q x))"
      using Cons.prems by (simp add: dict_keys_def dict_set_def distinct_update)
    then show ?thesis
      using Inr Cons.IH [of "dict_set e q x" "log_call (EncodeImage q) w"]
      by (simp add: Let_def log_call_simps)
  qed
qed

lemma get_image_files_world:
  "fs (snd (get_image_files env r w)) = fs w \<and>
   calls (snd (get_image_files env r w)) = calls w @ [OsWalk r]"
  by (simp add: get_image_files_def Let_def print_simps log_call_simps)

lemma generate_encodings_world:
  "fs (snd (generate_encodings h ps w)) = fs w \<and>
   stdout (snd (generate_encodings h ps w)) = stdout w @ [''Generating image hashes...''] \<and>
   calls (snd (generate_encodings h ps w)) = calls w @ map EncodeImage ps"
  unfolding generate_encodings_def
  using encode_loop_world [of h ps "[]" "print ''Generating image hashes...'' w"]
  by (simp add: print_simps)

lemma fapd_dry_world:
  "fs (world_of (find_and_process_duplicates env e h t False w)) = fs w \<and>
   removals (calls (world_of (find_and_process_duplicates env e h t False w))) =
     removals (calls w)"
  by (cases "find_duplicates h e t")
    (simp_all add: find_and_process_duplicates_def Let_def action_phase_dry
      print_summary_simps print_simps log_call_simps removals_append)

lemma fapd_removals:
  "find_duplicates h e t = Inr dm \<Longrightarrow>
   removals (calls (world_of (find_and_process_duplicates env e h t del w))) =
     removals (calls w) @
     (if del \<and> files_to_remove (select_files dm) \<noteq> {}
      then set_iter env (files_to_remove (select_files dm)) else [])"
  by (simp add: find_and_process_duplicates_def Let_def action_phase_removals
      print_summary_simps print_simps log_call_simps removals_append finite_removed_select)

lemma no_matching_files:
  assumes "\<forall>t\<in>set walk. \<forall>file\<in>set (snd (snd t)).
             str_lower env (path_suffix env file) \<notin> extensions"
  shows "concat (map (matching_files env) walk) = []"
proof -
  have "matching_files env t = []" if "t \<in> set walk" for t
  proof -
    obtain root dirs files where t: "t = (root, dirs, files)" by (cases t)
    have "\<forall>file\<in>set files. str_lower env (path_suffix env file) \<notin> extensions"
      using assms that t by fastforce
    then show ?thesis by (simp add: t matching_files_def filter_empty_conv)
  qed
  then show ?thesis by simp
qed

lemma main_dry_world:
  assumes "\<not> arg_delete args"
  shows "fs (world_of (main env hm args w)) = fs w \<and>
         removals (calls (world_of (main env hm args w))) = removals (calls w)"
proof -
  obtain ps w1 where g: "get_image_files env (arg_input_dir args) w = (ps, w1)"
    by (cases "get_image_files env (arg_input_dir args) w")
  have w1: "fs w1 = fs w" "calls w1 = calls w @ [OsWalk (arg_input_dir args)]"
    using get_image_files_world [of env "arg_input_dir args" w] by (simp_all add: g)
  show ?thesis
  proof (cases "ps = []")
    case True
    then show ?thesis by (simp add: main_def g w1 print_simps removals_append)
  next
    case False
    obtain e w2 where ge: "generate_encodings (hm (arg_method args)) ps w1 = (e, w2)"
      by (cases "generate_encodings (hm (arg_method args)) ps w1")
    have w2: "fs w2 = fs w1" "calls w2 = calls w1 @ map EncodeImage ps"
      using generate_encodings_world [of "hm (arg_method args)" ps w1] by (simp_all add: ge)
    have m: "main env hm args w =
        find_and_process_duplicates env e (hm (arg_method args)) (arg_threshold args) False w2"
      using False assms by (simp add: main_def g ge)
    show ?thesis
      unfolding m by (simp add: fapd_dry_world w1 w2 removals_append removals_encode)
  qed
qed

lemma fapd_dry_stdout:
  assumes "find_duplicates h e t = Inr dm" and "files_to_remove (select_files dm) \<noteq> {}"
  shows "stdout (world_of (find_and_process_duplicates env e h t False w)) =
           stdout (print_summary e (select_files dm) (print ''Finding duplicates...'' w)) @
           [CHR 0x0A # ''--- Dry Run (Files that would be deleted) ---''] @
           map (\<lambda>p. ''Would delete: '' @ p) (set_iter env (files_to_remove (select_files dm))) @
           [CHR 0x0A # ''Run with --delete to actually remove these files.'']"
  using assms
  by (simp add: find_and_process_duplicates_def Let_def action_phase_dry finite_removed_select
      print_summary_def print_simps log_call_simps)

lemma sample_encodings:
  "generate_encodings sample_hasher [''d/a.jpg'', ''d/b.jpg'', ''d/c.jpg'']
     (sample_world [''a.jpg'', ''b.jpg'', ''c.jpg'']) =
   ([(''d/a.jpg'', ''ff''), (''d/c.jpg'', ''ff'')],
    \<lparr>fs = [''a.jpg'', ''b.jpg'', ''c.jpg''],
     stdout = [''Generating image hashes...''],
     calls = [EncodeImage ''d/a.jpg'', EncodeImage ''d/b.jpg'', EncodeImage ''d/c.jpg'']\<rparr>)"
  by (simp add: generate_encodings_def sample_hasher_def sample_world_def print_def
      log_call_def dict_set_def)

lemma sample_duplicates:
  "find_duplicates sample_hasher [(''d/a.jpg'', ''ff''), (''d/c.jpg'', ''ff'')] 10 =
     Inr [(''d/a.jpg'', [''d/c.jpg'']), (''d/c.jpg'', [''d/a.jpg''])]"
  by (simp add: sample_hasher_def)

lemma sample_selection:
  "select_files [(''d/a.jpg'', [''d/c.jpg'']), (''d/c.jpg'', [''d/a.jpg''])] =
     \<lparr>files_to_remove = {''d/c.jpg''}, kept_files = {''d/a.jpg''}\<rparr>"
  by (simp add: select_files_def sorted_filenames_def dict_keys_def empty_selection_def
      process_filename_def dict_get_def mark_dup_def)

section \<open>The claims about the selection phase\<close>

text \<open>
  Claim C1, as the code has it. For the duplicate map \<open>{A: [B, C], B: [A], C: []}\<close>
  with \<open>A < B < C\<close>, the selection loop keeps \<open>A\<close> and removes both \<open>B\<close> and
  \<open>C\<close>: the list of \<open>A\<close> holds \<open>C\<close>, so line 114 marks it while \<open>A\<close> is processed,
  and the keys \<open>B\<close> and \<open>C\<close> are then skipped at line 100.
\<close>

theorem scenario_selection:
  assumes "A < B" and "B < C"
  shows "select_files [(A, [B, C]), (B, [A]), (C, [])] =
           \<lparr>files_to_remove = {B, C}, kept_files = {A}\<rparr>"
proof -
  have ac: "A < C" using assms by (rule less_trans)
  have ne: "A \<noteq> B" "B \<noteq> C" "A \<noteq> C" "B \<noteq> A" "C \<noteq> B" "C \<noteq> A"
    using assms ac by (simp_all add: less_imp_neq less_imp_neq [symmetric])
  have le: "A \<le> B" "B \<le> C" "A \<le> C"
    using assms ac by (simp_all add: less_imp_le)
  have nle: "\<not> B \<le> A" "\<not> C \<le> B" "\<not> C \<le> A"
    using assms ac by (simp_all add: not_le)
  have srt: "sorted_filenames [(A, [B, C]), (B, [A]), (C, [])] = [A, B, C]"
    by (simp add: sorted_filenames_def dict_keys_def le nle)
  show ?thesis
    by (simp add: select_files_def srt empty_selection_def process_filename_def
        dict_get_def mark_dup_def ne insert_commute)
qed

text \<open>
  The scenario of C1 on the paths \<open>''A''\<close>, \<open>''B''\<close> and \<open>''C''\<close>.
\<close>

theorem scenario_selection_witness:
  "''A'' < ''B'' \<and> ''B'' < ''C'' \<and>
   select_files [(''A'', [''B'', ''C'']), (''B'', [''A'']), (''C'', [])] =
     \<lparr>files_to_remove = {''B'', ''C''}, kept_files = {''A''}\<rparr>"
  using scenario_selection [of "''A''" "''B''" "''C''"] by simp

text \<open>
  Claim C1 as the specification states it (kept \<open>{A, C}\<close>, removed \<open>{B}\<close>) does not
  hold on the code: \<open>''C''\<close> is removed.
\<close>

theorem scenario_selection_counterexample:
  "\<not> (kept_files (select_files [(''A'', [''B'', ''C'']), (''B'', [''A'']), (''C'', [])]) =
        {''A'', ''C''} \<and>
      files_to_remove (select_files [(''A'', [''B'', ''C'']), (''B'', [''A'']), (''C'', [])]) =
        {''B''})"
proof -
  have "''C'' \<in> files_to_remove
          (select_files [(''A'', [''B'', ''C'']), (''B'', [''A'']), (''C'', [])])"
    by (simp add: select_files_def sorted_filenames_def dict_keys_def empty_selection_def
        process_filename_def dict_get_def mark_dup_def)
  moreover have "''C'' \<notin> {''B''}" by simp
  ultimately show ?thesis by metis
qed

text \<open>
  Claim C2. The count reported as unique images to keep plus the count of duplicates
  found is the count of encoded images, for every encoding map and every duplicate
  map. When the encoding map is a well-formed dictionary and the duplicate lists hold
  encoded paths only, the reported unique count is the number of encoded paths that
  are not removed, so that every encoded path is counted once.
\<close>

theorem summary_counts_add_up:
  "unique_images_to_keep encodings (select_files dm) + duplicates_found (select_files dm) =
     total_images_processed encodings \<and>
   (distinct (dict_keys encodings) \<and>
    (\<forall>k. set (dict_get dm k []) \<subseteq> set (dict_keys encodings)) \<longrightarrow>
      unique_images_to_keep encodings (select_files dm) =
        int (card (set (dict_keys encodings) - files_to_remove (select_files dm))))"
proof -
  define R where "R = files_to_remove (select_files dm)"
  define K where "K = set (dict_keys encodings)"
  have eq: "unique_images_to_keep encodings (select_files dm) +
        duplicates_found (select_files dm) = total_images_processed encodings"
    by (simp add: unique_images_to_keep_def duplicates_found_def total_images_processed_def)
  have "unique_images_to_keep encodings (select_files dm) = int (card (K - R))"
    if dist: "distinct (dict_keys encodings)"
      and within: "\<forall>k. set (dict_get dm k []) \<subseteq> K"
  proof -
    have "R \<subseteq> (\<Union>k\<in>set (dict_keys dm). set (dict_get dm k []))"
      unfolding R_def by (rule removed_within_lists)
    also have "\<dots> \<subseteq> K" using within by blast
    finally have sub: "R \<subseteq> K" .
    have finK: "finite K" by (simp add: K_def)
    have finR: "finite R" using sub finK by (rule finite_subset)
    have "card (K - R) = card K - card R" using finR sub by (rule card_Diff_subset)
    moreover have "card R \<le> card K" using finK sub by (rule card_mono)
    moreover have "card K = length encodings"
    proof -
      have "card (set (dict_keys encodings)) = length (dict_keys encodings)"
        using dist by (rule distinct_card)
      then show ?thesis by (simp add: K_def dict_keys_def)
    qed
    ultimately show ?thesis
      by (simp add: unique_images_to_keep_def R_def)
  qed
  then show ?thesis using eq unfolding K_def R_def by simp
qed

text \<open>
  Claim C2 on three encoded files, two of which are removed.
\<close>

theorem summary_counts_add_up_witness:
  "distinct (dict_keys [(''A'', ''0f''), (''B'', ''0f''), (''C'', ''0e'')]) \<and>
   (\<forall>k. set (dict_get [(''A'', [''B'', ''C'']), (''B'', [''A'']), (''C'', [])] k [])
          \<subseteq> set (dict_keys [(''A'', ''0f''), (''B'', ''0f''), (''C'', ''0e'')])) \<and>
   unique_images_to_keep [(''A'', ''0f''), (''B'', ''0f''), (''C'', ''0e'')]
     (select_files [(''A'', [''B'', ''C'']), (''B'', [''A'']), (''C'', [])]) = 1 \<and>
   duplicates_found (select_files [(''A'', [''B'', ''C'']), (''B'', [''A'']), (''C'', [])]) = 2 \<and>
   total_images_processed [(''A'', ''0f''), (''B'', ''0f''), (''C'', ''0e'')] = 3"
proof -
  let ?e = "[(''A'', ''0f''), (''B'', ''0f''), (''C'', ''0e'')]"
  let ?d = "[(''A'', [''B'', ''C'']), (''B'', [''A'']), (''C'', [])]"
  have h1: "distinct (dict_keys ?e)" by (simp add: dict_keys_def)
  have h2: "\<forall>k. set (dict_get ?d k []) \<subseteq> set (dict_keys ?e)"
    by (auto simp: dict_keys_def dict_get_def)
  have sel: "files_to_remove (select_files ?d) = {''B'', ''C''}"
    by (simp add: select_files_def sorted_filenames_def dict_keys_def empty_selection_def
      process_filename_def dict_get_def mark_dup_def insert_commute)
  have k: "set (dict_keys ?e) - {''B'', ''C''} = {''A''}"
    by (auto simp: dict_keys_def)
  have c: "card {''B'', ''C''} = 2" by simp
  from summary_counts_add_up [of ?e ?d] h1 h2
  have "unique_images_to_keep ?e (select_files ?d) +
          duplicates_found (select_files ?d) = total_images_processed ?e"
    and "unique_images_to_keep ?e (select_files ?d) =
          int (card (set (dict_keys ?e) - files_to_remove (select_files ?d)))"
    by blast+
  then show ?thesis using h1 h2
    by (simp add: sel k c duplicates_found_def total_images_processed_def)
qed

text \<open>
  Claim C3. After any number of iterations of the outer loop (over any sequence of
  keys \<open>ks\<close>, so in particular over every prefix of the sorted keys) the kept set and
  the removed set are disjoint; they stay disjoint after line 109 and any number of
  iterations of the inner loop for a key \<open>f\<close> that is not removed; a kept path is left
  alone by the body of the inner loop and is not removed by any later iterations
  \<open>ks'\<close>; and the two sets are disjoint when the loop ends.
\<close>

theorem kept_removed_disjoint:
  "(let s = selection_loop dm ks empty_selection in
      kept_files s \<inter> files_to_remove s = {} \<and>
      (f \<notin> files_to_remove s \<longrightarrow>
         (let s' = mark_dups f ds (s\<lparr>kept_files := insert f (kept_files s)\<rparr>)
          in kept_files s' \<inter> files_to_remove s' = {})) \<and>
      (\<forall>p\<in>kept_files s. mark_dup f' s p = s \<and>
         p \<notin> files_to_remove (selection_loop dm ks' s))) \<and>
   kept_files (select_files dm) \<inter> files_to_remove (select_files dm) = {}"
proof -
  define s where "s = selection_loop dm ks empty_selection"
  have d1: "kept_files s \<inter> files_to_remove s = {}"
    unfolding s_def using disjoint_empty_selection by (rule disjoint_loop)
  have d2: "kept_files (mark_dups f ds (s\<lparr>kept_files := insert f (kept_files s)\<rparr>)) \<inter>
            files_to_remove (mark_dups f ds (s\<lparr>kept_files := insert f (kept_files s)\<rparr>)) = {}"
    if "f \<notin> files_to_remove s"
  proof (rule disjoint_mark_dups)
    show "kept_files (s\<lparr>kept_files := insert f (kept_files s)\<rparr>) \<inter>
          files_to_remove (s\<lparr>kept_files := insert f (kept_files s)\<rparr>) = {}"
      using d1 that by simp
  qed
  have d3: "mark_dup f' s p = s \<and> p \<notin> files_to_remove (selection_loop dm ks' s)"
    if "p \<in> kept_files s" for p
  proof
    show "mark_dup f' s p = s" using that by (rule mark_dup_kept_noop)
    have "kept_files (selection_loop dm ks' s) \<inter> files_to_remove (selection_loop dm ks' s) = {}"
      using d1 by (rule disjoint_loop)
    moreover have "p \<in> kept_files (selection_loop dm ks' s)"
      using that kept_loop_mono [of s dm ks'] by (rule subsetD [rotated])
    ultimately show "p \<notin> files_to_remove (selection_loop dm ks' s)" by (rule disjoint_iff [THEN iffD1, rule_format])
  qed
  have d4: "kept_files (select_files dm) \<inter> files_to_remove (select_files dm) = {}"
    unfolding select_files_def using disjoint_empty_selection by (rule disjoint_loop)
  show ?thesis
    unfolding Let_def s_def [symmetric] using d1 d2 d3 d4 by simp
qed

text \<open>
  Claim C3 on the duplicate map \<open>{A: [B], B: [A, C], C: [B]}\<close>, after the first
  iteration of the outer loop.
\<close>

theorem kept_removed_disjoint_witness:
  "(let s = selection_loop [(''A'', [''B'']), (''B'', [''A'', ''C'']), (''C'', [''B''])]
              [''A''] empty_selection in
      ''C'' \<notin> files_to_remove s \<and> ''A'' \<in> kept_files s \<and>
      (let s' = mark_dups ''C'' [''B''] (s\<lparr>kept_files := insert ''C'' (kept_files s)\<rparr>)
       in kept_files s' \<inter> files_to_remove s' = {}) \<and>
      mark_dup ''B'' s ''A'' = s \<and>
      ''A'' \<notin> files_to_remove
        (selection_loop [(''A'', [''B'']), (''B'', [''A'', ''C'']), (''C'', [''B''])]
           [''B'', ''C''] s))"
proof -
  let ?d = "[(''A'', [''B'']), (''B'', [''A'', ''C'']), (''C'', [''B''])]"
  let ?s = "selection_loop ?d [''A''] empty_selection"
  have h1: "''C'' \<notin> files_to_remove ?s"
    by (simp add: empty_selection_def process_filename_def dict_get_def mark_dup_def)
  have h2: "''A'' \<in> kept_files ?s"
    by (simp add: empty_selection_def process_filename_def dict_get_def mark_dup_def)
  from kept_removed_disjoint [of ?d "[''A'']" "''C''" "[''B'']" "''B''" "[''B'', ''C'']"] h1 h2
  show ?thesis unfolding Let_def by blast
qed

text \<open>
  Claim C4, as the code has it. The guard \<^verbatim>\<open>dup != filename\<close> of line 113 acts while
  the list of \<open>p\<close> itself is processed: there \<open>p\<close> is never marked. A path whose
  duplicate list holds the path itself, and which no key sorting before it lists, is
  not removed and is kept.
\<close>

theorem self_listed_kept:
  assumes "p \<in> set (dict_get dm p [])"
    and "\<forall>k\<in>set (dict_keys dm). k < p \<longrightarrow> p \<notin> set (dict_get dm k [])"
  shows "mark_dup p s p = s \<and>
         p \<notin> files_to_remove (select_files dm) \<and> p \<in> kept_files (select_files dm)"
proof -
  have ne: "dict_get dm p [] \<noteq> []"
    using assms(1) by (cases "dict_get dm p []") simp_all
  then have "p \<in> set (dict_keys dm)" by (rule dict_get_nonempty_key)
  then have "p \<in> kept_files (select_files dm) \<and> p \<notin> files_to_remove (select_files dm)"
    using ne assms(2) by (rule first_listed_kept)
  moreover have "mark_dup p s p = s" by (simp add: mark_dup_def)
  ultimately show ?thesis by simp
qed

text \<open>
  The amended claim C4 on the duplicate map \<open>{A: [C], B: [B], C: []}\<close>.
\<close>

theorem self_listed_kept_witness:
  "''B'' \<in> set (dict_get [(''A'', [''C'']), (''B'', [''B'']), (''C'', [])] ''B'' []) \<and>
   dict_keys [(''A'', [''C'']), (''B'', [''B'']), (''C'', [])] = [''A'', ''B'', ''C''] \<and>
   ''B'' \<notin> set (dict_get [(''A'', [''C'']), (''B'', [''B'']), (''C'', [])] ''A'' []) \<and>
   \<not> ''B'' < ''B'' \<and> \<not> ''C'' < ''B'' \<and>
   ''B'' \<notin> files_to_remove (select_files [(''A'', [''C'']), (''B'', [''B'']), (''C'', [])]) \<and>
   ''B'' \<in> kept_files (select_files [(''A'', [''C'']), (''B'', [''B'']), (''C'', [])])"
proof -
  let ?d = "[(''A'', [''C'']), (''B'', [''B'']), (''C'', [])]"
  have h1: "''B'' \<in> set (dict_get ?d ''B'' [])" by (simp add: dict_get_def)
  have k: "dict_keys ?d = [''A'', ''B'', ''C'']" by (simp add: dict_keys_def)
  have a: "''B'' \<notin> set (dict_get ?d ''A'' [])" by (simp add: dict_get_def)
  have o: "\<not> ''B'' < ''B''" "\<not> ''C'' < ''B''" by simp_all
  have h2: "\<forall>k\<in>set (dict_keys ?d). k < ''B'' \<longrightarrow> ''B'' \<notin> set (dict_get ?d k [])"
    using a o by (simp add: k)
  from h1 k a o self_listed_kept [OF h1 h2] show ?thesis by (simp only: simp_thms)
qed

text \<open>
  Claim C4 as the specification states it does not hold on the code: in
  \<open>{A: [B], B: [B]}\<close> the path \<open>B\<close> lists itself and is removed, as a duplicate of
  \<open>A\<close>.
\<close>

theorem self_listed_counterexample:
  "''B'' \<in> set (dict_get [(''A'', [''B'']), (''B'', [''B''])] ''B'' []) \<and>
   ''B'' \<in> files_to_remove (select_files [(''A'', [''B'']), (''B'', [''B''])])"
  by (simp add: select_files_def sorted_filenames_def dict_keys_def empty_selection_def
      process_filename_def dict_get_def mark_dup_def)

text \<open>
  Claim C5, as the code has it. In a cluster of at least two paths that all list one
  another, the lowest path is kept and not removed, provided that no key sorting
  before it lists it.
\<close>

theorem lowest_of_cluster_kept:
  assumes "mutual_cluster dm C"
    and "m \<in> C" and "\<forall>q\<in>C. m \<le> q" and "\<exists>q\<in>C. q \<noteq> m"
    and "\<forall>k\<in>set (dict_keys dm). k < m \<longrightarrow> m \<notin> set (dict_get dm k [])"
  shows "m \<in> kept_files (select_files dm) \<and> m \<notin> files_to_remove (select_files dm)"
proof -
  from assms(4) obtain q where q: "q \<in> C" "q \<noteq> m" ..
  have "\<forall>p\<in>C. \<forall>q\<in>C. p \<noteq> q \<longrightarrow> q \<in> set (dict_get dm p [])"
    using assms(1) by (simp only: mutual_cluster_def)
  then have "\<forall>q\<in>C. m \<noteq> q \<longrightarrow> q \<in> set (dict_get dm m [])"
    using assms(2) by (rule bspec)
  then have "m \<noteq> q \<longrightarrow> q \<in> set (dict_get dm m [])"
    using q(1) by (rule bspec)
  then have "q \<in> set (dict_get dm m [])" using q(2) by simp
  then have ne: "dict_get dm m [] \<noteq> []" by (cases "dict_get dm m []") simp_all
  then have "m \<in> set (dict_keys dm)" by (rule dict_get_nonempty_key)
  then show ?thesis using ne assms(5) by (rule first_listed_kept)
qed

text \<open>
  The amended claim C5 on the cluster \<open>{A, B}\<close> of the duplicate map
  \<open>{A: [B], B: [A, C], C: [B]}\<close>.
\<close>

theorem lowest_of_cluster_kept_witness:
  "mutual_cluster [(''A'', [''B'']), (''B'', [''A'', ''C'']), (''C'', [''B''])] {''A'', ''B''} \<and>
   ''A'' \<in> {''A'', ''B''} \<and> ''A'' \<le> ''A'' \<and> ''A'' \<le> ''B'' \<and> ''B'' \<noteq> ''A'' \<and>
   dict_keys [(''A'', [''B'']), (''B'', [''A'', ''C'']), (''C'', [''B''])] = [''A'', ''B'', ''C''] \<and>
   \<not> ''A'' < ''A'' \<and> \<not> ''B'' < ''A'' \<and> \<not> ''C'' < ''A'' \<and>
   ''A'' \<in> kept_files
     (select_files [(''A'', [''B'']), (''B'', [''A'', ''C'']), (''C'', [''B''])]) \<and>
   ''A'' \<notin> files_to_remove
     (select_files [(''A'', [''B'']), (''B'', [''A'', ''C'']), (''C'', [''B''])])"
proof -
  let ?d = "[(''A'', [''B'']), (''B'', [''A'', ''C'']), (''C'', [''B''])]"
  have h1: "mutual_cluster ?d {''A'', ''B''}"
    by (simp add: mutual_cluster_def dict_get_def)
  have h2: "''A'' \<in> {''A'', ''B''}" by simp
  have le: "''A'' \<le> ''A''" "''A'' \<le> ''B''" by simp_all
  have ne: "''B'' \<noteq> ''A''" by simp
  have k: "dict_keys ?d = [''A'', ''B'', ''C'']" by (simp add: dict_keys_def)
  have o: "\<not> ''A'' < ''A''" "\<not> ''B'' < ''A''" "\<not> ''C'' < ''A''" by simp_all
  have h3: "\<forall>q\<in>{''A'', ''B''}. ''A'' \<le> q" using le by simp
  have h4: "\<exists>q\<in>{''A'', ''B''}. q \<noteq> ''A''" using ne by simp
  have h5: "\<forall>k\<in>set (dict_keys ?d). k < ''A'' \<longrightarrow> ''A'' \<notin> set (dict_get ?d k [])"
    using o by (simp add: k)
  from h1 h2 le ne k o lowest_of_cluster_kept [OF h1 h2 h3 h4 h5] show ?thesis
    by (simp only: simp_thms)
qed

text \<open>
  Claim C5 as the specification states it does not hold on the code: in the same
  duplicate map \<open>B\<close> and \<open>C\<close> list one another, \<open>B\<close> is the lower of the two, and
  \<open>B\<close> is removed (as a duplicate of \<open>A\<close>) and not kept.
\<close>

theorem lowest_of_cluster_counterexample:
  "mutual_cluster [(''A'', [''B'']), (''B'', [''A'', ''C'']), (''C'', [''B''])] {''B'', ''C''} \<and>
   ''B'' < ''C'' \<and>
   ''B'' \<in> files_to_remove
     (select_files [(''A'', [''B'']), (''B'', [''A'', ''C'']), (''C'', [''B''])]) \<and>
   ''B'' \<notin> kept_files
     (select_files [(''A'', [''B'']), (''B'', [''A'', ''C'']), (''C'', [''B''])])"
  by (simp add: select_chain mutual_cluster_def dict_get_def)

text \<open>
  Claim C6. The kept and removed sets depend on the entries of the duplicate map
  only: two dictionaries with the same entries, inserted in whatever order, give the
  same selection. (The encoding map reaches the selection through the duplicate map
  alone.) This is what sorting the keys at line 96 buys.
\<close>

theorem selection_deterministic:
  assumes "distinct (dict_keys d1)" and "distinct (dict_keys d2)"
    and "map_of d1 = map_of d2"
  shows "select_files d1 = select_files d2"
  unfolding select_files_def
  by (simp only: sorted_filenames_cong [OF assms] selection_loop_cong [OF assms(3)])

text \<open>
  Claim C6 on one duplicate map built in two insertion orders.
\<close>

theorem selection_deterministic_witness:
  "distinct (dict_keys [(''A'', [''B'']), (''B'', [''A''])]) \<and>
   distinct (dict_keys [(''B'', [''A'']), (''A'', [''B''])]) \<and>
   map_of [(''A'', [''B'']), (''B'', [''A''])] = map_of [(''B'', [''A'']), (''A'', [''B''])] \<and>
   select_files [(''A'', [''B'']), (''B'', [''A''])] =
     select_files [(''B'', [''A'']), (''A'', [''B''])]"
proof -
  have h1: "distinct (dict_keys [(''A'', [''B'']), (''B'', [''A''])])"
    by (simp add: dict_keys_def)
  have h2: "distinct (dict_keys [(''B'', [''A'']), (''A'', [''B''])])"
    by (simp add: dict_keys_def)
  have h3: "map_of [(''A'', [''B'']), (''B'', [''A''])] =
            map_of [(''B'', [''A'']), (''A'', [''B''])]"
    by (simp add: fun_eq_iff)
  from h1 h2 h3 selection_deterministic [OF h1 h2 h3] show ?thesis by (simp only: simp_thms)
qed

section \<open>The claims about the pipeline\<close>

text \<open>
  Claim C7. Without \<^verbatim>\<open>--delete\<close> a run leaves the file system as it found it and
  hands no path to \<^verbatim>\<open>os.remove\<close>, whatever the library calls return. When the
  duplicate map is returned and some path is marked for removal,
  \<^verbatim>\<open>find_and_process_duplicates\<close> prints, after the summary and the header of the dry
  run, one line \<^verbatim>\<open>Would delete: p\<close> for each marked path \<open>p\<close> in the order the set
  is visited, and then the closing hint.
\<close>

theorem dry_run_no_mutation:
  assumes "\<not> arg_delete args"
  shows "fs (world_of (main env hash_methods args w)) = fs w \<and>
         removals (calls (world_of (main env hash_methods args w))) = removals (calls w) \<and>
         (find_duplicates hasher encodings threshold = Inr dm \<and>
          files_to_remove (select_files dm) \<noteq> {} \<longrightarrow>
            stdout (world_of
                (find_and_process_duplicates env encodings hasher threshold False w)) =
              stdout (print_summary encodings (select_files dm)
                        (print ''Finding duplicates...'' w)) @
              [CHR 0x0A # ''--- Dry Run (Files that would be deleted) ---''] @
              map (\<lambda>p. ''Would delete: '' @ p)
                (set_iter env (files_to_remove (select_files dm))) @
              [CHR 0x0A # ''Run with --delete to actually remove these files.''])"
  using main_dry_world [OF assms, of env hash_methods w]
    fapd_dry_stdout [of hasher encodings threshold dm env w]
  by simp

text \<open>
  Claim C7 on the sample run: three images, one of them unreadable, one duplicate.
\<close>

theorem dry_run_no_mutation_witness:
  "\<not> arg_delete (sample_args False) \<and>
   find_duplicates sample_hasher [(''d/a.jpg'', ''ff''), (''d/c.jpg'', ''ff'')] 10 =
     Inr [(''d/a.jpg'', [''d/c.jpg'']), (''d/c.jpg'', [''d/a.jpg''])] \<and>
   files_to_remove (select_files [(''d/a.jpg'', [''d/c.jpg'']), (''d/c.jpg'', [''d/a.jpg''])]) =
     {''d/c.jpg''} \<and>
   fs (world_of (main sample_os (\<lambda>m. sample_hasher) (sample_args False)
         (sample_world [''a.jpg'', ''b.jpg'', ''c.jpg'']))) = [''a.jpg'', ''b.jpg'', ''c.jpg''] \<and>
   removals (calls (world_of (main sample_os (\<lambda>m. sample_hasher) (sample_args False)
         (sample_world [''a.jpg'', ''b.jpg'', ''c.jpg''])))) = [] \<and>
   stdout (world_of (find_and_process_duplicates sample_os
         [(''d/a.jpg'', ''ff''), (''d/c.jpg'', ''ff'')] sample_hasher 10 False
         (sample_world [''a.jpg'', ''b.jpg'', ''c.jpg'']))) =
     [''Finding duplicates...'',
      CHR 0x0A # ''--- Result Summary ---'',
      ''Total images processed: 2'',
      ''Unique images to keep:  1'',
      ''Duplicates found:       1'',
      CHR 0x0A # ''--- Dry Run (Files that would be deleted) ---'',
      ''Would delete: d/c.jpg'',
      CHR 0x0A # ''Run with --delete to actually remove these files.'']"
proof -
  let ?e = "[(''d/a.jpg'', ''ff''), (''d/c.jpg'', ''ff'')]"
  let ?d = "[(''d/a.jpg'', [''d/c.jpg'']), (''d/c.jpg'', [''d/a.jpg''])]"
  let ?w = "sample_world [''a.jpg'', ''b.jpg'', ''c.jpg'']"
  have h: "\<not> arg_delete (sample_args False)" by (simp add: sample_args_def)
  have r: "files_to_remove (select_files ?d) = {''d/c.jpg''}"
    by (simp add: sample_selection)
  have ne: "files_to_remove (select_files ?d) \<noteq> {}" by (simp add: r)
  have n1: "str_int 1 = ''1''" by code_simp
  have n2: "str_int 2 = ''2''" by code_simp
  note t = dry_run_no_mutation [OF h, where env = sample_os and hash_methods = "\<lambda>m. sample_hasher"
      and w = ?w and hasher = sample_hasher and encodings = ?e and threshold = 10 and dm = ?d]
  have a: "fs (world_of (main sample_os (\<lambda>m. sample_hasher) (sample_args False) ?w)) =
             [''a.jpg'', ''b.jpg'', ''c.jpg'']"
    using t by (simp add: sample_world_def)
  have b: "removals (calls (world_of (main sample_os (\<lambda>m. sample_hasher) (sample_args False) ?w))) = []"
    using t by (simp add: sample_world_def)
  have c: "stdout (world_of (find_and_process_duplicates sample_os ?e sample_hasher 10 False ?w)) =
     [''Finding duplicates...'',
      CHR 0x0A # ''--- Result Summary ---'',
      ''Total images processed: 2'',
      ''Unique images to keep:  1'',
      ''Duplicates found:       1'',
      CHR 0x0A # ''--- Dry Run (Files that would be deleted) ---'',
      ''Would delete: d/c.jpg'',
      CHR 0x0A # ''Run with --delete to actually remove these files.'']"
    using t sample_duplicates ne
    by (simp add: r sample_selection print_summary_def print_def sample_world_def sample_os_def
        total_images_processed_def unique_images_to_keep_def duplicates_found_def n1 n2)
  from h sample_duplicates r a b c show ?thesis by (simp only: simp_thms)
qed

text \<open>
  Claim C8. When no file of the walk has a suffix of the allow-list, \<^verbatim>\<open>main\<close>
  returns after three lines of output: the two lines of the scanner and
  \<^verbatim>\<open>No images found. Exiting.\<close> The file system is unchanged and the walk is the only
  external call: nothing is encoded, no duplicates are searched and nothing is
  removed; the lines that open the encoding and the grouping are not printed.
\<close>

theorem no_images_early_exit:
  assumes "\<forall>t\<in>set (os_walk env (fs w) (arg_input_dir args)). \<forall>file\<in>set (snd (snd t)).
             str_lower env (path_suffix env file) \<notin> extensions"
  shows "main env hash_methods args w =
           Returned (w\<lparr>stdout := stdout w @
                        [''Scanning '' @ arg_input_dir args @ '' for images...'',
                         ''Found 0 images.'',
                         ''No images found. Exiting.''],
                      calls := calls w @ [OsWalk (arg_input_dir args)]\<rparr>)"
proof -
  have "concat (map (matching_files env) (os_walk env (fs w) (arg_input_dir args))) = []"
    using assms by (rule no_matching_files)
  then show ?thesis
    by (simp add: main_def get_image_files_def Let_def print_def log_call_def str_int_0
        del: concat_eq_Nil_conv)
qed

text \<open>
  Claim C8 on a directory that holds one text file.
\<close>

theorem no_images_early_exit_witness:
  "os_walk sample_os (fs (sample_world [''notes.txt''])) (arg_input_dir (sample_args True)) =
     [(''d'', [], [''notes.txt''])] \<and>
   str_lower sample_os (path_suffix sample_os ''notes.txt'') = ''.txt'' \<and>
   ''.txt'' \<notin> extensions \<and>
   main sample_os (\<lambda>m. sample_hasher) (sample_args True) (sample_world [''notes.txt'']) =
     Returned \<lparr>fs = [''notes.txt''],
               stdout = [''Scanning d for images...'', ''Found 0 images.'',
                         ''No images found. Exiting.''],
               calls = [OsWalk ''d'']\<rparr>"
proof -
  have w: "os_walk sample_os (fs (sample_world [''notes.txt''])) (arg_input_dir (sample_args True)) =
     [(''d'', [], [''notes.txt''])]"
    by (simp add: sample_os_def sample_world_def sample_args_def)
  have s: "str_lower sample_os (path_suffix sample_os ''notes.txt'') = ''.txt''"
    by (simp add: sample_os_def)
  have e: "''.txt'' \<notin> extensions" by (simp add: extensions_def)
  have h: "\<forall>t\<in>set (os_walk sample_os (fs (sample_world [''notes.txt'']))
                    (arg_input_dir (sample_args True))).
             \<forall>file\<in>set (snd (snd t)).
               str_lower sample_os (path_suffix sample_os file) \<notin> extensions"
    using s e by (simp add: w)
  have "main sample_os (\<lambda>m. sample_hasher) (sample_args True) (sample_world [''notes.txt'']) =
     Returned \<lparr>fs = [''notes.txt''],
               stdout = [''Scanning d for images...'', ''Found 0 images.'',
                         ''No images found. Exiting.''],
               calls = [OsWalk ''d'']\<rparr>"
    using no_images_early_exit [OF h, where hash_methods = "\<lambda>m. sample_hasher"]
    by (simp add: sample_world_def sample_args_def)
  with w s e show ?thesis by (simp only: simp_thms)
qed

text \<open>
  Claim C9. \<^verbatim>\<open>generate_encodings\<close> always returns. The encoding map it returns holds
  a path with a hash exactly when the path was scanned and \<^verbatim>\<open>encode_image\<close> returned
  that hash for it; so its keys are the scanned paths that encoded, whatever failed
  before or after them. Its keys are distinct. \<^verbatim>\<open>encode_image\<close> is called once for
  each scanned path, in scan order, and nothing else is called; the file system is
  unchanged and the only line printed is the opening one.
\<close>

theorem generate_encodings_skips_failures:
  "(case generate_encodings hasher image_paths w of (encodings, w') \<Rightarrow>
      (\<forall>p x. map_of encodings p = Some x \<longleftrightarrow>
         p \<in> set image_paths \<and> encode_image hasher (fs w) p = Inr x) \<and>
      set (dict_keys encodings) =
        {p \<in> set image_paths. \<exists>x. encode_image hasher (fs w) p = Inr x} \<and>
      distinct (dict_keys encodings) \<and>
      calls w' = calls w @ map EncodeImage image_paths \<and>
      fs w' = fs w \<and>
      stdout w' = stdout w @ [''Generating image hashes...''])"
proof -
  define w0 where "w0 = print ''Generating image hashes...'' w"
  define r where "r = encode_loop hasher image_paths ([], w0)"
  have g: "generate_encodings hasher image_paths w = (fst r, snd r)"
    by (simp add: generate_encodings_def r_def w0_def)
  have fs0: "fs w0 = fs w" by (simp add: w0_def print_simps)
  have m: "map_of (fst r) p = Some x \<longleftrightarrow>
             p \<in> set image_paths \<and> encode_image hasher (fs w) p = Inr x" for p x
    unfolding r_def encode_loop_map_of fs0
    by (cases "encode_image hasher (fs w) p") simp_all
  have "set (dict_keys (fst r)) = dom (map_of (fst r))"
    by (simp add: dict_keys_def dom_map_of_conv_image_fst)
  also have "\<dots> = {p \<in> set image_paths. \<exists>x. encode_image hasher (fs w) p = Inr x}"
    using m by (auto simp: dom_def)
  finally have k: "set (dict_keys (fst r)) =
      {p \<in> set image_paths. \<exists>x. encode_image hasher (fs w) p = Inr x}" .
  have d: "distinct (dict_keys (fst r))"
    unfolding r_def by (rule encode_loop_distinct) (simp add: dict_keys_def)
  have wld: "calls (snd r) = calls w @ map EncodeImage image_paths"
    "fs (snd r) = fs w" "stdout (snd r) = stdout w @ [''Generating image hashes...'']"
    using generate_encodings_world [of hasher image_paths w] by (simp_all add: g)
  show ?thesis
    unfolding g prod.case using m k d wld by simp
qed

text \<open>
  Claim C9 on three scanned paths, the second of which cannot be read.
\<close>

theorem generate_encodings_skips_failures_witness:
  "encode_image sample_hasher [''a.jpg'', ''b.jpg'', ''c.jpg''] ''d/b.jpg'' = Inl ''cannot read'' \<and>
   generate_encodings sample_hasher [''d/a.jpg'', ''d/b.jpg'', ''d/c.jpg'']
     (sample_world [''a.jpg'', ''b.jpg'', ''c.jpg'']) =
   ([(''d/a.jpg'', ''ff''), (''d/c.jpg'', ''ff'')],
    \<lparr>fs = [''a.jpg'', ''b.jpg'', ''c.jpg''],
     stdout = [''Generating image hashes...''],
     calls = [EncodeImage ''d/a.jpg'', EncodeImage ''d/b.jpg'', EncodeImage ''d/c.jpg'']\<rparr>) \<and>
   {p \<in> set [''d/a.jpg'', ''d/b.jpg'', ''d/c.jpg''].
      \<exists>x. encode_image sample_hasher (fs (sample_world [''a.jpg'', ''b.jpg'', ''c.jpg''])) p = Inr x} =
     {''d/a.jpg'', ''d/c.jpg''}"
proof -
  have f: "encode_image sample_hasher [''a.jpg'', ''b.jpg'', ''c.jpg''] ''d/b.jpg'' =
             Inl ''cannot read''"
    by (simp add: sample_hasher_def)
  from generate_encodings_skips_failures [where hasher = sample_hasher
      and image_paths = "[''d/a.jpg'', ''d/b.jpg'', ''d/c.jpg'']"
      and w = "sample_world [''a.jpg'', ''b.jpg'', ''c.jpg'']"]
  have "set (dict_keys [(''d/a.jpg'', ''ff''), (''d/c.jpg'', ''ff'')]) =
     {p \<in> set [''d/a.jpg'', ''d/b.jpg'', ''d/c.jpg''].
      \<exists>x. encode_image sample_hasher (fs (sample_world [''a.jpg'', ''b.jpg'', ''c.jpg''])) p = Inr x}"
    unfolding sample_encodings prod.case by (rule conjunct1 [OF conjunct2])
  then have "{p \<in> set [''d/a.jpg'', ''d/b.jpg'', ''d/c.jpg''].
      \<exists>x. encode_image sample_hasher (fs (sample_world [''a.jpg'', ''b.jpg'', ''c.jpg''])) p = Inr x} =
     {''d/a.jpg'', ''d/c.jpg''}"
    by (simp add: dict_keys_def)
  with f sample_encodings show ?thesis by (simp only: simp_thms)
qed

text \<open>
  Claim C10. Every removed path is in the duplicate list of a kept path other than
  itself. Hence a path that no duplicate list holds is not removed; and, when the set
  of removed paths is visited member by member, \<^verbatim>\<open>find_and_process_duplicates\<close> does
  not hand such a path to \<^verbatim>\<open>os.remove\<close>, in either mode.
\<close>

theorem removed_listed_by_kept:
  "(\<forall>p\<in>files_to_remove (select_files dm).
      \<exists>q\<in>kept_files (select_files dm). q \<noteq> p \<and> p \<in> set (dict_get dm q [])) \<and>
   ((\<forall>q. p \<notin> set (dict_get dm q [])) \<longrightarrow> p \<notin> files_to_remove (select_files dm)) \<and>
   ((\<forall>q. p \<notin> set (dict_get dm q [])) \<and>
    find_duplicates hasher encodings threshold = Inr dm \<and>
    set (set_iter env (files_to_remove (select_files dm))) \<subseteq> files_to_remove (select_files dm) \<and>
    p \<notin> set (removals (calls w)) \<longrightarrow>
      p \<notin> set (removals (calls (world_of
        (find_and_process_duplicates env encodings hasher threshold delete_mode w)))))"
proof -
  have j: "\<forall>p\<in>files_to_remove (select_files dm).
      \<exists>q\<in>kept_files (select_files dm). q \<noteq> p \<and> p \<in> set (dict_get dm q [])"
    using justified_select [of dm] by (simp only: justified_def)
  have n: "p \<notin> files_to_remove (select_files dm)" if "\<forall>q. p \<notin> set (dict_get dm q [])"
  proof
    assume "p \<in> files_to_remove (select_files dm)"
    with j obtain q where "p \<in> set (dict_get dm q [])" by blast
    with that show False by simp
  qed
  have r: "p \<notin> set (removals (calls (world_of
        (find_and_process_duplicates env encodings hasher threshold delete_mode w))))"
    if u: "\<forall>q. p \<notin> set (dict_get dm q [])"
      and f: "find_duplicates hasher encodings threshold = Inr dm"
      and it: "set (set_iter env (files_to_remove (select_files dm)))
                 \<subseteq> files_to_remove (select_files dm)"
      and old: "p \<notin> set (removals (calls w))"
  proof -
    have "p \<notin> set (set_iter env (files_to_remove (select_files dm)))"
      using n [OF u] it by blast
    then show ?thesis using old by (simp add: fapd_removals [OF f])
  qed
  show ?thesis using j n r by blast
qed

text \<open>
  Claim C10 on the sample run: the unreadable \<^verbatim>\<open>d/b.jpg\<close> is in no duplicate list
  and is not deleted.
\<close>

theorem removed_listed_by_kept_witness:
  "''d/c.jpg'' \<in> files_to_remove
       (select_files [(''d/a.jpg'', [''d/c.jpg'']), (''d/c.jpg'', [''d/a.jpg''])]) \<and>
   (\<exists>q\<in>kept_files (select_files [(''d/a.jpg'', [''d/c.jpg'']), (''d/c.jpg'', [''d/a.jpg''])]).
      q \<noteq> ''d/c.jpg'' \<and>
      ''d/c.jpg'' \<in> set (dict_get [(''d/a.jpg'', [''d/c.jpg'']), (''d/c.jpg'', [''d/a.jpg''])] q [])) \<and>
   (\<forall>q. ''d/b.jpg'' \<notin>
      set (dict_get [(''d/a.jpg'', [''d/c.jpg'']), (''d/c.jpg'', [''d/a.jpg''])] q [])) \<and>
   ''d/b.jpg'' \<notin> files_to_remove
       (select_files [(''d/a.jpg'', [''d/c.jpg'']), (''d/c.jpg'', [''d/a.jpg''])]) \<and>
   find_duplicates sample_hasher [(''d/a.jpg'', ''ff''), (''d/c.jpg'', ''ff'')] 10 =
     Inr [(''d/a.jpg'', [''d/c.jpg'']), (''d/c.jpg'', [''d/a.jpg''])] \<and>
   set (set_iter sample_os
         (files_to_remove (select_files [(''d/a.jpg'', [''d/c.jpg'']), (''d/c.jpg'', [''d/a.jpg''])])))
     \<subseteq> files_to_remove (select_files [(''d/a.jpg'', [''d/c.jpg'']), (''d/c.jpg'', [''d/a.jpg''])]) \<and>
   ''d/b.jpg'' \<notin> set (removals (calls (sample_world [''a.jpg'', ''b.jpg'', ''c.jpg'']))) \<and>
   ''d/b.jpg'' \<notin> set (removals (calls (world_of
      (find_and_process_duplicates sample_os [(''d/a.jpg'', ''ff''), (''d/c.jpg'', ''ff'')]
         sample_hasher 10 True (sample_world [''a.jpg'', ''b.jpg'', ''c.jpg''])))))"
proof -
  let ?e = "[(''d/a.jpg'', ''ff''), (''d/c.jpg'', ''ff'')]"
  let ?d = "[(''d/a.jpg'', [''d/c.jpg'']), (''d/c.jpg'', [''d/a.jpg''])]"
  let ?w = "sample_world [''a.jpg'', ''b.jpg'', ''c.jpg'']"
  have h1: "''d/c.jpg'' \<in> files_to_remove (select_files ?d)" by (simp add: sample_selection)
  have h2: "\<forall>q. ''d/b.jpg'' \<notin> set (dict_get ?d q [])" by (simp add: dict_get_def)
  have h3: "set (set_iter sample_os (files_to_remove (select_files ?d)))
              \<subseteq> files_to_remove (select_files ?d)"
    by (simp add: sample_os_def finite_removed_select)
  have h4: "''d/b.jpg'' \<notin> set (removals (calls ?w))" by (simp add: sample_world_def)
  from removed_listed_by_kept [where dm = ?d and p = "''d/b.jpg''" and hasher = sample_hasher
      and encodings = ?e and threshold = 10 and env = sample_os and w = ?w
      and delete_mode = True]
    h1 h2 h3 h4 sample_duplicates
  show ?thesis by blast
qed

end
